theory Spec2Isabelle
  imports Main
begin

section \<open>Values and the node heap\<close>

text \<open>
  The class \<^verbatim>\<open>Node\<close> of \<^verbatim>\<open>src/node.js\<close> keeps four properties per node: an id, a
  content, a parent (a node or \<^verbatim>\<open>null\<close>) and an array of children. Nodes are objects
  with identity and are mutated in place, so the model is an explicit store from
  references to the nodes' properties, and every method takes the store and returns the
  updated one.

  Ids and contents are arbitrary JavaScript values. The primitives are modelled by value
  (numbers as integers, with \<^verbatim>\<open>NaN\<close> apart); any other object is an opaque
  reference that is compared by identity.
\<close>

type_synonym ref = nat

datatype jsval =
    JUndefined
  | JNull
  | JBool bool
  | JNumber int
  | JNaN
  | JString string
  | JObject ref

text \<open>
  \<^verbatim>\<open>this.properties = { id, content, parent: null, children: [] }\<close>.
  The field \<open>id\<close> is written \<open>id_prop\<close>, since \<open>id\<close> is HOL's identity function.
  \<open>parent = None\<close> is \<^verbatim>\<open>null\<close>.
\<close>

record properties =
  id_prop :: jsval
  content :: jsval
  parent :: "ref option"
  children :: "ref list"

text \<open>
  The store, and the next reference that \<^verbatim>\<open>new Node\<close> hands out. References are
  never reused: JavaScript frees no object that can still be reached.
\<close>

record heap =
  store :: "ref \<Rightarrow> properties"
  fresh :: ref

definition empty_heap :: heap where
  "empty_heap =
     \<lparr>store = (\<lambda>_. \<lparr>id_prop = JUndefined, content = JNull, parent = None, children = []\<rparr>),
      fresh = 0\<rparr>"

text \<open>Errors of the language that the methods can raise.\<close>

datatype error =
    TypeError
  | Unmodelled

subsection \<open>Creating, properties\<close>

text \<open>
  \<^verbatim>\<open>constructor({ id, content = null })\<close>: the default of the destructuring applies
  when the content is missing or \<^verbatim>\<open>undefined\<close>.
\<close>

definition new_Node :: "jsval \<Rightarrow> jsval \<Rightarrow> heap \<Rightarrow> ref \<times> heap" where
  "new_Node i c h =
     (fresh h,
      h\<lparr>store := (store h)(fresh h :=
            \<lparr>id_prop = i,
             content = (if c = JUndefined then JNull else c),
             parent = None,
             children = []\<rparr>),
        fresh := Suc (fresh h)\<rparr>)"


definition set_parent :: "ref \<Rightarrow> ref option \<Rightarrow> heap \<Rightarrow> heap" where
  "set_parent this p h = h\<lparr>store := (store h)(this := (store h this)\<lparr>parent := p\<rparr>)\<rparr>"

definition set_children :: "ref \<Rightarrow> ref list \<Rightarrow> heap \<Rightarrow> heap" where
  "set_children this cs h = h\<lparr>store := (store h)(this := (store h this)\<lparr>children := cs\<rparr>)\<rparr>"

text \<open>\<^verbatim>\<open>isRoot() { return this.parent === null }\<close>\<close>

definition isRoot :: "heap \<Rightarrow> ref \<Rightarrow> bool" where
  "isRoot h this = (parent (store h this) = None)"

subsection \<open>The helper \<^verbatim>\<open>Node.remove\<close>\<close>

text \<open>
  \<^verbatim>\<open>
  static remove(array, ...elements) {
    for (let index = array.length - 1; index >= 0; index--) {
      const element = array[index]
      if (elements.includes(element)) {
        array.splice(index, 1)
      }
    }
  }
  \<close>
  The loop runs from the last index down to 0. The counter of \<open>remove_loop\<close> is
  \<open>index + 1\<close>, so that it is a natural number that reaches 0 when the loop ends.
\<close>

definition splice1 :: "'a list \<Rightarrow> nat \<Rightarrow> 'a list" where
  "splice1 array index = take index array @ drop (Suc index) array"

fun remove_loop :: "'a list \<Rightarrow> 'a list \<Rightarrow> nat \<Rightarrow> 'a list" where
  "remove_loop array elements 0 = array"
| "remove_loop array elements (Suc index) =
     (let element = array ! index in
      if element \<in> set elements
      then remove_loop (splice1 array index) elements index
      else remove_loop array elements index)"

definition remove :: "'a list \<Rightarrow> 'a list \<Rightarrow> 'a list" where
  "remove array elements = remove_loop array elements (length array)"

subsection \<open>Parent\<close>

text \<open>
  \<^verbatim>\<open>
  setParent(parentNode) {
    if (this.parent) {
      Node.remove(this.parent.nodes, this)
    }
    if (parentNode) {
      parentNode.nodes.push(this)
    }
    this.parent = parentNode
  }
  \<close>
  The second step reads the children of \<open>parentNode\<close> from the store that the first
  step left, as the code does when both are the same array.
\<close>

definition setParent :: "ref \<Rightarrow> ref option \<Rightarrow> heap \<Rightarrow> heap" where
  "setParent this parentNode h =
     (let h1 = (case parent (store h this) of
                  None \<Rightarrow> h
                | Some p \<Rightarrow> set_children p (remove (children (store h p)) [this]) h);
          h2 = (case parentNode of
                  None \<Rightarrow> h1
                | Some q \<Rightarrow> set_children q (children (store h1 q) @ [this]) h1)
      in set_parent this parentNode h2)"

text \<open>\<^verbatim>\<open>setRoot() { this.setParent(null) }\<close>\<close>

definition setRoot :: "ref \<Rightarrow> heap \<Rightarrow> heap" where
  "setRoot this h = setParent this None h"

subsection \<open>Adding\<close>

text \<open>
  \<^verbatim>\<open>add(node) { node.setParent(this); return node }\<close> and
  \<^verbatim>\<open>push(...nodes) { for (const node of nodes) { this.add(node) }; return this }\<close>.
\<close>

definition add :: "ref \<Rightarrow> ref \<Rightarrow> heap \<Rightarrow> ref \<times> heap" where
  "add this node h = (node, setParent node (Some this) h)"

fun push_loop :: "ref \<Rightarrow> ref list \<Rightarrow> heap \<Rightarrow> heap" where
  "push_loop this [] h = h"
| "push_loop this (node # nodes) h = push_loop this nodes (snd (add this node h))"

definition push :: "ref \<Rightarrow> ref list \<Rightarrow> heap \<Rightarrow> ref \<times> heap" where
  "push this nodes h = (this, push_loop this nodes h)"

subsection \<open>Children\<close>



subsection \<open>Comparison\<close>

text \<open>
  \<^verbatim>\<open>
  static compare(
    compareFunction = (value, otherValue) => {
      return value < otherValue ? -1 : 1
    },
    mapNode = (node) => node.content
  ) {
    return (node, otherNode) => {
      return compareFunction(mapNode(node), mapNode(otherNode))
    }
  }
  \<close>
  The keys are whatever \<open>mapNode\<close> returns, so the operator \<^verbatim>\<open><\<close> of the language on
  the keys is a parameter \<open>lt\<close> of the model.
\<close>

definition compareFunction :: "('k \<Rightarrow> 'k \<Rightarrow> bool) \<Rightarrow> 'k \<Rightarrow> 'k \<Rightarrow> int" where
  "compareFunction lt value otherValue = (if lt value otherValue then - 1 else 1)"

definition mapNode :: "heap \<Rightarrow> ref \<Rightarrow> jsval" where
  "mapNode h node = content (store h node)"

definition compare :: "('k \<Rightarrow> 'k \<Rightarrow> int) \<Rightarrow> (ref \<Rightarrow> 'k) \<Rightarrow> ref \<Rightarrow> ref \<Rightarrow> int" where
  "compare cmp mapN node otherNode = cmp (mapN node) (mapN otherNode)"

definition compare_default :: "(jsval \<Rightarrow> jsval \<Rightarrow> bool) \<Rightarrow> heap \<Rightarrow> ref \<Rightarrow> ref \<Rightarrow> int" where
  "compare_default lt h = compare (compareFunction lt) (mapNode h)"

subsection \<open>Siblings\<close>

text \<open>
  \<^verbatim>\<open>indexOf\<close> of an array scans from index 0 and returns \<open>-1\<close> when the element is not
  there. Reading an array at an integer that is not one of its indices returns
  \<^verbatim>\<open>undefined\<close> (\<open>None\<close>); no array read raises.
\<close>

fun indexOf_from :: "'a list \<Rightarrow> 'a \<Rightarrow> int \<Rightarrow> int" where
  "indexOf_from [] x i = - 1"
| "indexOf_from (y # ys) x i = (if y = x then i else indexOf_from ys x (i + 1))"

definition indexOf :: "'a list \<Rightarrow> 'a \<Rightarrow> int" where
  "indexOf array x = indexOf_from array x 0"

definition at_index :: "'a list \<Rightarrow> int \<Rightarrow> 'a option" where
  "at_index array i = (if 0 \<le> i \<and> i < int (length array) then Some (array ! nat i) else None)"

text \<open>
  \<^verbatim>\<open>index() { return this.isRoot() ? null : this.parent.nodes.indexOf(this) }\<close>.
  \<open>None\<close> is \<^verbatim>\<open>null\<close>.
\<close>

definition index :: "heap \<Rightarrow> ref \<Rightarrow> int option" where
  "index h this =
     (case parent (store h this) of
        None \<Rightarrow> None
      | Some p \<Rightarrow> Some (indexOf (children (store h p)) this))"

text \<open>The number that \<^verbatim>\<open>+\<close> takes from the result of \<^verbatim>\<open>index()\<close>: \<^verbatim>\<open>null\<close> counts as 0.\<close>

definition to_number :: "int option \<Rightarrow> int" where
  "to_number i = (case i of None \<Rightarrow> 0 | Some n \<Rightarrow> n)"

text \<open>
  \<^verbatim>\<open>next(count = 1) { return this.parent.nodes[this.index() + count] }\<close> and
  \<^verbatim>\<open>previous(count = 1) { return this.next(-count) }\<close>.
  Reading \<^verbatim>\<open>.nodes\<close> of the parent \<^verbatim>\<open>null\<close> of a root raises a \<^verbatim>\<open>TypeError\<close>; that
  is the only error. The result \<open>Inr None\<close> is the value \<^verbatim>\<open>undefined\<close>. The name
  \<open>next\<close> is taken by Isar, so the method is \<open>next_node\<close>.
\<close>

definition next_node :: "heap \<Rightarrow> ref \<Rightarrow> int \<Rightarrow> error + ref option" where
  "next_node h this count =
     (case parent (store h this) of
        None \<Rightarrow> Inl TypeError
      | Some p \<Rightarrow> Inr (at_index (children (store h p)) (to_number (index h this) + count)))"

definition previous :: "heap \<Rightarrow> ref \<Rightarrow> int \<Rightarrow> error + ref option" where
  "previous h this count = next_node h this (- count)"

subsection \<open>Recursive methods\<close>

text \<open>
  The recursive methods follow the parent links or the children as far as these go, and
  do not return on a cycle. Each takes, as its first argument, a bound on the depth of
  its recursion, and returns \<open>None\<close> when the bound is reached.

  \<^verbatim>\<open>
  lineage() { return this.ancestors([this]) }
  ancestors(ancestors = []) {
    if (this.isRoot()) {
      return ancestors
    }
    return this.parent.ancestors(ancestors.concat(this.parent))
  }
  depth() { return this.isRoot() ? 0 : 1 + this.parent.depth() }
  \<close>
\<close>

fun ancestors :: "nat \<Rightarrow> heap \<Rightarrow> ref \<Rightarrow> ref list \<Rightarrow> ref list option" where
  "ancestors 0 h this acc = None"
| "ancestors (Suc k) h this acc =
     (case parent (store h this) of
        None \<Rightarrow> Some acc
      | Some p \<Rightarrow> ancestors k h p (acc @ [p]))"

definition lineage :: "nat \<Rightarrow> heap \<Rightarrow> ref \<Rightarrow> ref list option" where
  "lineage k h this = ancestors k h this [this]"

fun depth :: "nat \<Rightarrow> heap \<Rightarrow> ref \<Rightarrow> nat option" where
  "depth 0 h this = None"
| "depth (Suc k) h this =
     (case parent (store h this) of
        None \<Rightarrow> Some 0
      | Some p \<Rightarrow> map_option (\<lambda>d. 1 + d) (depth k h p))"

text \<open>
  \<^verbatim>\<open>
  *[Symbol.iterator]() {
    function* generator() {
      yield this
      for (const node of this.nodes) {
        yield* generator.apply(node)
      }
    }
    yield* generator.apply(this)
  }
  \<close>
  \<open>iterator\<close> is the whole sequence that the generator yields (\<^verbatim>\<open>Array.from(node)\<close>).
\<close>

fun iterator :: "nat \<Rightarrow> heap \<Rightarrow> ref \<Rightarrow> ref list option" where
  "iterator 0 h this = None"
| "iterator (Suc k) h this =
     map_option (\<lambda>yielded. this # concat yielded)
       (those (map (iterator k h) (children (store h this))))"

subsection \<open>Encoder and parser\<close>

text \<open>
  The plain objects that \<^verbatim>\<open>encode\<close> builds and \<^verbatim>\<open>parse\<close> reads: an object is a list
  of named properties (the first binding of a name counts), and a property holds a value
  or an array of objects.
\<close>

datatype object = Object "(string \<times> (jsval + object list)) list"

definition get_prop :: "object \<Rightarrow> string \<Rightarrow> jsval + object list" where
  "get_prop obj name =
     (case obj of Object props \<Rightarrow>
        (case map_of props name of None \<Rightarrow> Inl JUndefined | Some v \<Rightarrow> v))"

text \<open>
  \<^verbatim>\<open>
  encode(
    constructor = (node, encode) => ({
      id: node.id,
      content: node.content,
      nodes: encode()
    })
  ) {
    const encode = () => {
      return this.nodes.map((node) => {
        return node.encode(constructor)
      })
    }
    return constructor(this, encode)
  }
  \<close>
  with the default constructor, which calls \<^verbatim>\<open>encode()\<close> once.
\<close>

definition encode_constructor :: "properties \<Rightarrow> object list \<Rightarrow> object" where
  "encode_constructor node encoded =
     Object [(''id'', Inl (id_prop node)), (''content'', Inl (content node)), (''nodes'', Inr encoded)]"

fun encode :: "nat \<Rightarrow> heap \<Rightarrow> ref \<Rightarrow> object option" where
  "encode 0 h this = None"
| "encode (Suc k) h this =
     map_option (encode_constructor (store h this))
       (those (map (encode k h) (children (store h this))))"



section \<open>The tree of the guide\<close>

text \<open>
  \<^verbatim>\<open>
  const nodes = [
    new Node({ id: 0, content: 'zero' }),
    new Node({ id: 1, content: 'one' }),
    new Node({ id: 2, content: 'two' }),
    new Node({ id: 3, content: 'three' }),
    new Node({ id: 4, content: 'four' })
  ]
  nodes[0].push(nodes[1], nodes[2].push(nodes[3], nodes[4]))
  \<close>
  The five nodes get the references 0 to 4. The inner \<^verbatim>\<open>push\<close> is an argument of the
  outer one, so it runs first.
\<close>

definition guide_nodes :: heap where
  "guide_nodes =
     (let (n0, h) = new_Node (JNumber 0) (JString ''zero'') empty_heap;
          (n1, h) = new_Node (JNumber 1) (JString ''one'') h;
          (n2, h) = new_Node (JNumber 2) (JString ''two'') h;
          (n3, h) = new_Node (JNumber 3) (JString ''three'') h;
          (n4, h) = new_Node (JNumber 4) (JString ''four'') h
      in h)"

definition guide_tree :: heap where
  "guide_tree =
     (let (n2, h) = push 2 [3, 4] guide_nodes;
          (n0, h) = push 0 [1, n2] h
      in h)"

section \<open>Trees in the store\<close>

text \<open>
  A finite acyclic tree, as a value: a reference and the trees below it. \<open>tree_at h t\<close>
  says that the store holds \<open>t\<close>: every node of \<open>t\<close> has, in \<open>h\<close>, the roots of its
  subtrees as its children, in their order. A node on a cycle of children has no such
  \<open>t\<close>.
\<close>

datatype tree = Tree (root_of: ref) (subtrees: "tree list")

fun tree_at :: "heap \<Rightarrow> tree \<Rightarrow> bool" where
  "tree_at h (Tree r ts) = (children (store h r) = map root_of ts \<and> list_all (tree_at h) ts)"

fun levels :: "tree \<Rightarrow> nat" where
  "levels (Tree r ts) = Suc (Max (set (0 # map levels ts)))"

text \<open>Pre-order: the node, then the pre-order of each subtree, in order.\<close>

fun preorder :: "tree \<Rightarrow> ref list" where
  "preorder (Tree r ts) = r # concat (map preorder ts)"

text \<open>
  The chain of parents above a node that ends in a root: \<open>parents_to_root h n ps\<close> says
  that \<open>ps\<close> is the parent of \<open>n\<close>, then its grandparent, and so on, and that the last
  one (or \<open>n\<close> itself, when \<open>ps\<close> is empty) has no parent. A node on a cycle of parents has
  no such chain.
\<close>

fun parents_to_root :: "heap \<Rightarrow> ref \<Rightarrow> ref list \<Rightarrow> bool" where
  "parents_to_root h n [] = (parent (store h n) = None)"
| "parents_to_root h n (p # ps) = (parent (store h n) = Some p \<and> parents_to_root h p ps)"

text \<open>
  The two links agree: a node is among the children of \<open>p\<close> exactly when its parent is
  \<open>p\<close>, and then once.
\<close>

definition links_agree :: "heap \<Rightarrow> bool" where
  "links_agree h =
     (\<forall>p c. (c \<in> set (children (store h p)) \<longleftrightarrow> parent (store h c) = Some p)
          \<and> distinct (children (store h p)))"

section \<open>Encoded trees\<close>

text \<open>
  What a tree of the store is, apart from the references of its nodes: the id and the
  content of each node and, in order, the same of its subtrees. Two trees, in two stores,
  are equal in structure and contents when their \<open>labelled\<close> trees are equal.
  \<open>to_object\<close> is the object of the default shape for such a tree.
\<close>

datatype ltree = LTree jsval jsval "ltree list"

fun labelled :: "heap \<Rightarrow> tree \<Rightarrow> ltree" where
  "labelled h (Tree r ts) = LTree (id_prop (store h r)) (content (store h r)) (map (labelled h) ts)"

fun to_object :: "ltree \<Rightarrow> object" where
  "to_object (LTree i c ls) =
     Object [(''id'', Inl i), (''content'', Inl c), (''nodes'', Inr (map to_object ls))]"


text \<open>The names of the properties of an object, in order.\<close>

definition prop_names :: "object \<Rightarrow> string list" where
  "prop_names obj = (case obj of Object props \<Rightarrow> map fst props)"



section \<open>Properties\<close>

subsection \<open>The helper \<^verbatim>\<open>Node.remove\<close> filters\<close>

lemma remove_loop_filter:
  "n \<le> length xs \<Longrightarrow>
   remove_loop xs es n = filter (\<lambda>x. x \<notin> set es) (take n xs) @ drop n xs"
proof (induction n arbitrary: xs)
  case 0
  then show ?case by simp
next
  case (Suc n)
  then have n: "n < length xs" by simp
  have tk: "take (Suc n) xs = take n xs @ [xs ! n]"
    using n by (simp add: take_Suc_conv_app_nth)
  show ?case
  proof (cases "xs ! n \<in> set es")
    case True
    have len: "n \<le> length (splice1 xs n)"
      using n by (simp add: splice1_def)
    have "remove_loop xs es (Suc n) = remove_loop (splice1 xs n) es n"
      using True by simp
    also have "\<dots> = filter (\<lambda>x. x \<notin> set es) (take n (splice1 xs n)) @ drop n (splice1 xs n)"
      by (rule Suc.IH [OF len])
    also have "take n (splice1 xs n) = take n xs"
      using n by (simp add: splice1_def)
    also have "drop n (splice1 xs n) = drop (Suc n) xs"
      using n by (simp add: splice1_def)
    finally show ?thesis using True by (simp add: tk)
  next
    case False
    have "remove_loop xs es (Suc n) = remove_loop xs es n"
      using False by simp
    also have "\<dots> = filter (\<lambda>x. x \<notin> set es) (take n xs) @ drop n xs"
      using n by (intro Suc.IH) simp
    also have "drop n xs = xs ! n # drop (Suc n) xs"
      using n by (simp add: Cons_nth_drop_Suc)
    finally show ?thesis using False by (simp add: tk)
  qed
qed

lemma remove_filter: "remove xs es = filter (\<lambda>x. x \<notin> set es) xs"
  by (simp add: remove_def remove_loop_filter)

lemma remove_single: "remove xs [e] = filter (\<lambda>x. x \<noteq> e) xs"
  by (simp add: remove_filter)

subsection \<open>The tree of the guide, evaluated\<close>

lemma guide_nodes_store:
  "store guide_nodes = (\<lambda>_. \<lparr>id_prop = JUndefined, content = JNull, parent = None, children = []\<rparr>)
     (0 := \<lparr>id_prop = JNumber 0, content = JString ''zero'', parent = None, children = []\<rparr>,
      1 := \<lparr>id_prop = JNumber 1, content = JString ''one'', parent = None, children = []\<rparr>,
      2 := \<lparr>id_prop = JNumber 2, content = JString ''two'', parent = None, children = []\<rparr>,
      3 := \<lparr>id_prop = JNumber 3, content = JString ''three'', parent = None, children = []\<rparr>,
      4 := \<lparr>id_prop = JNumber 4, content = JString ''four'', parent = None, children = []\<rparr>)"
  by (simp add: guide_nodes_def new_Node_def empty_heap_def eval_nat_numeral)

lemmas guide_eval = guide_tree_def push_def add_def setParent_def set_children_def set_parent_def
  guide_nodes_store remove_single

lemma guide_tree_store:
  "store guide_tree 0 = \<lparr>id_prop = JNumber 0, content = JString ''zero'', parent = None, children = [1, 2]\<rparr>"
  "store guide_tree 1 = \<lparr>id_prop = JNumber 1, content = JString ''one'', parent = Some 0, children = []\<rparr>"
  "store guide_tree (Suc 0) = \<lparr>id_prop = JNumber 1, content = JString ''one'', parent = Some 0, children = []\<rparr>"
  "store guide_tree 2 = \<lparr>id_prop = JNumber 2, content = JString ''two'', parent = Some 0, children = [3, 4]\<rparr>"
  "store guide_tree 3 = \<lparr>id_prop = JNumber 3, content = JString ''three'', parent = Some 2, children = []\<rparr>"
  "store guide_tree 4 = \<lparr>id_prop = JNumber 4, content = JString ''four'', parent = Some 2, children = []\<rparr>"
  by (simp_all add: guide_eval)

subsection \<open>Comparison\<close>

text \<open>
  C8. For every pair of keys, the default \<^verbatim>\<open>compareFunction\<close> of \<^verbatim>\<open>Node.compare\<close>
  returns \<open>-1\<close> when the first key is less than the second and \<open>1\<close> in every other
  case, so it never returns \<open>0\<close>; a key that is not less than itself compares as
  greater than itself. The function that \<^verbatim>\<open>Node.compare()\<close> returns applies it to the
  contents of the two nodes.
\<close>

theorem compareFunction_never_zero:
  "compareFunction lt value otherValue = (if lt value otherValue then - 1 else 1)
   \<and> compareFunction lt value otherValue \<noteq> 0
   \<and> (\<not> lt value value \<longrightarrow> compareFunction lt value value = 1)
   \<and> compare_default ltv h node otherNode =
       (if ltv (content (store h node)) (content (store h otherNode)) then - 1 else 1)"
  by (simp add: compareFunction_def compare_default_def compare_def mapNode_def)

theorem compareFunction_never_zero_witness:
  "compareFunction (<) (1::int) 2 = - 1
   \<and> compareFunction (<) (2::int) 1 = 1
   \<and> compareFunction (<) (2::int) 2 = 1
   \<and> compareFunction (<) (2::int) 2 \<noteq> 0"
  using compareFunction_never_zero [of "(<)" "1::int" 2]
    compareFunction_never_zero [of "(<)" "2::int" 1]
    compareFunction_never_zero [of "(<)" "2::int" 2]
  by simp

subsection \<open>Looking a child up\<close>



lemma guide_tree_fun:
  "store guide_tree = (\<lambda>_. \<lparr>id_prop = JUndefined, content = JNull, parent = None, children = []\<rparr>)
     (0 := \<lparr>id_prop = JNumber 0, content = JString ''zero'', parent = None, children = [1, 2]\<rparr>,
      1 := \<lparr>id_prop = JNumber 1, content = JString ''one'', parent = Some 0, children = []\<rparr>,
      2 := \<lparr>id_prop = JNumber 2, content = JString ''two'', parent = Some 0, children = [3, 4]\<rparr>,
      3 := \<lparr>id_prop = JNumber 3, content = JString ''three'', parent = Some 2, children = []\<rparr>,
      4 := \<lparr>id_prop = JNumber 4, content = JString ''four'', parent = Some 2, children = []\<rparr>)"
  by (rule ext) (simp add: guide_eval)

lemma guide_tree_links_agree: "links_agree guide_tree"
  unfolding links_agree_def guide_tree_fun by auto

subsection \<open>Setting the parent\<close>

lemma setParent_children:
  "children (store (setParent c pn h) x) =
     (if parent (store h c) = Some x then filter (\<lambda>y. y \<noteq> c) (children (store h x))
      else children (store h x)) @ (if pn = Some x then [c] else [])"
  by (simp add: setParent_def set_children_def set_parent_def remove_single Let_def
      split: option.splits)

lemma setParent_parent:
  "parent (store (setParent c pn h) x) = (if x = c then pn else parent (store h x))"
  by (simp add: setParent_def set_children_def set_parent_def Let_def split: option.splits)


text \<open>\<^verbatim>\<open>setParent\<close> keeps the two links in agreement.\<close>

lemma setParent_links_agree:
  assumes "links_agree h"
  shows "links_agree (setParent c pn h)"
proof -
  have inv: "\<And>p x. x \<in> set (children (store h p)) \<longleftrightarrow> parent (store h x) = Some p"
    and dist: "\<And>p. distinct (children (store h p))"
    using assms by (auto simp: links_agree_def)
  show ?thesis
    unfolding links_agree_def
    by (auto simp: setParent_children setParent_parent inv dist)
qed

text \<open>
  C9. When the parent of \<open>c\<close> is already \<open>P\<close>, \<open>c.setParent(P)\<close> (also through
  \<open>P.add(c)\<close> or \<open>P.push(c)\<close>) takes \<open>c\<close> out of the children of \<open>P\<close> and appends it:
  the children of \<open>P\<close> are the other children in their order, then \<open>c\<close>, which is now
  the last. On the tree of the guide, \<open>node1.setParent(node0)\<close> turns the children
  \<open>[node1, node2]\<close> of \<open>node0\<close> into \<open>[node2, node1]\<close>.
\<close>

theorem setParent_same_parent_moves_last:
  assumes "parent (store h c) = Some P"
  shows "children (store (setParent c (Some P) h) P) = filter (\<lambda>x. x \<noteq> c) (children (store h P)) @ [c]
       \<and> last (children (store (setParent c (Some P) h) P)) = c
       \<and> parent (store (setParent c (Some P) h) c) = Some P
       \<and> snd (add P c h) = setParent c (Some P) h
       \<and> snd (push P [c] h) = setParent c (Some P) h"
  using assms by (simp add: setParent_children setParent_parent add_def push_def)

theorem setParent_same_parent_moves_last_witness:
  "parent (store guide_tree 1) = Some 0
   \<and> children (store guide_tree 0) = [1, 2]
   \<and> children (store (setParent 1 (Some 0) guide_tree) 0) = [2, 1]"
proof -
  have p: "parent (store guide_tree 1) = Some 0"
    by (simp add: guide_tree_store)
  show ?thesis
    using setParent_same_parent_moves_last [OF p] by (simp add: guide_tree_store)
qed

text \<open>
  C4. In a store whose links agree, \<open>P.add(c)\<close> returns \<open>c\<close>; afterwards the parent of
  \<open>c\<close> is \<open>P\<close>, the children of \<open>P\<close> contain \<open>c\<close> exactly once, a different previous
  parent of \<open>c\<close> no longer has \<open>c\<close> among its children, and the links still agree.
\<close>

theorem add_links_child:
  assumes "links_agree h"
  shows "fst (add P c h) = c
       \<and> parent (store (snd (add P c h)) c) = Some P
       \<and> count_list (children (store (snd (add P c h)) P)) c = 1
       \<and> (\<forall>q. parent (store h c) = Some q \<and> q \<noteq> P \<longrightarrow> c \<notin> set (children (store (snd (add P c h)) q)))
       \<and> links_agree (snd (add P c h))"
proof -
  have inv: "\<And>p x. x \<in> set (children (store h p)) \<longleftrightarrow> parent (store h x) = Some p"
    using assms by (auto simp: links_agree_def)
  have "count_list (filter (\<lambda>y. y \<noteq> c) xs) c = 0" for xs
    by (induction xs) auto
  moreover have "parent (store h c) \<noteq> Some P \<Longrightarrow> count_list (children (store h P)) c = 0"
    using inv by (simp add: count_list_0_iff)
  ultimately have "count_list (children (store (setParent c (Some P) h) P)) c = 1"
    by (simp add: setParent_children)
  then show ?thesis
    using setParent_links_agree [OF assms, of c "Some P"]
    by (simp add: add_def setParent_children setParent_parent)
qed

theorem add_links_child_witness:
  "fst (add 1 3 guide_tree) = 3
   \<and> parent (store (snd (add 1 3 guide_tree)) 3) = Some 1
   \<and> children (store (snd (add 1 3 guide_tree)) 1) = [3]
   \<and> children (store (snd (add 1 3 guide_tree)) 2) = [4]
   \<and> count_list (children (store (snd (add 1 3 guide_tree)) 1)) 3 = 1"
  using add_links_child [OF guide_tree_links_agree, of 1 3]
  by (simp add: add_def setParent_children guide_tree_store)

subsection \<open>Ancestors, lineage and depth\<close>

lemma ancestors_acc:
  "ancestors k h n acc = map_option ((@) acc) (ancestors k h n [])"
proof (induction k arbitrary: n acc)
  case 0
  then show ?case by simp
next
  case (Suc k)
  show ?case
  proof (cases "parent (store h n)")
    case None
    then show ?thesis by simp
  next
    case (Some p)
    have "ancestors k h p (acc @ [p]) = map_option ((@) (acc @ [p])) (ancestors k h p [])"
      by (rule Suc.IH)
    moreover have "ancestors k h p [p] = map_option ((@) [p]) (ancestors k h p [])"
      by (rule Suc.IH)
    ultimately show ?thesis
      using Some by (cases "ancestors k h p []") simp_all
  qed
qed

lemma depth_length_ancestors:
  "depth k h n = map_option length (ancestors k h n [])"
proof (induction k arbitrary: n)
  case 0
  then show ?case by simp
next
  case (Suc k)
  show ?case
  proof (cases "parent (store h n)")
    case None
    then show ?thesis by simp
  next
    case (Some p)
    have "ancestors k h p [p] = map_option ((@) [p]) (ancestors k h p [])"
      by (rule ancestors_acc)
    then show ?thesis
      using Some Suc.IH [of p] by (cases "ancestors k h p []") simp_all
  qed
qed

lemma ancestors_parents_to_root:
  "parents_to_root h n ps \<Longrightarrow> length ps < k \<Longrightarrow> ancestors k h n [] = Some ps"
proof (induction ps arbitrary: n k)
  case Nil
  then show ?case by (cases k) simp_all
next
  case (Cons p ps)
  then obtain k' where k: "k = Suc k'" and len: "length ps < k'"
    by (cases k) simp_all
  from Cons.prems have par: "parent (store h n) = Some p" and rest: "parents_to_root h p ps"
    by simp_all
  have "ancestors k' h p [] = Some ps"
    by (rule Cons.IH [OF rest len])
  then have "ancestors k' h p [p] = Some (p # ps)"
    using ancestors_acc [of k' h p "[p]"] by simp
  then show ?case using k par by simp
qed

lemma ancestors_Some_chain:
  "ancestors k h n [] = Some ps \<Longrightarrow> parents_to_root h n ps"
proof (induction k arbitrary: n ps)
  case 0
  then show ?case by simp
next
  case (Suc k)
  show ?case
  proof (cases "parent (store h n)")
    case None
    with Suc.prems show ?thesis by simp
  next
    case (Some p)
    with Suc.prems have "ancestors k h p [p] = Some ps" by simp
    then obtain qs where qs: "ancestors k h p [] = Some qs" and ps: "ps = p # qs"
      using ancestors_acc [of k h p "[p]"] by auto
    from Suc.IH [OF qs] show ?thesis using Some ps by simp
  qed
qed

text \<open>
  C7. For a node \<open>n\<close> whose chain of parents \<open>ps\<close> ends in a root (nearest parent
  first), and a bound above the length of the chain: \<open>n.ancestors()\<close> returns \<open>ps\<close>,
  and \<open>n.lineage()\<close> returns \<open>n\<close> followed by \<open>n.ancestors()\<close>. The ancestors of a
  root are empty, and the ancestors of any other node are its parent followed by the
  ancestors of the parent.
\<close>

theorem lineage_node_then_ancestors:
  assumes "parents_to_root h n ps" and "length ps < k"
  shows "ancestors k h n [] = Some ps
       \<and> lineage k h n = Some (n # ps)
       \<and> lineage k h n = map_option ((#) n) (ancestors k h n [])
       \<and> (isRoot h n \<longrightarrow> ancestors k h n [] = Some [])
       \<and> (\<forall>p. parent (store h n) = Some p \<longrightarrow>
             ancestors k h n [] = map_option ((#) p) (ancestors k h p []))"
proof -
  have a: "ancestors k h n [] = Some ps"
    by (rule ancestors_parents_to_root [OF assms])
  have l: "lineage k h n = map_option ((#) n) (ancestors k h n [])"
    unfolding lineage_def using ancestors_acc [of k h n "[n]"]
    by (cases "ancestors k h n []") simp_all
  have r: "isRoot h n \<Longrightarrow> ps = []"
    using assms(1) by (cases ps) (simp_all add: isRoot_def)
  have p: "ancestors k h n [] = map_option ((#) p) (ancestors k h p [])"
    if par: "parent (store h n) = Some p" for p
  proof -
    from assms(1) par obtain qs where ps: "ps = p # qs" and rest: "parents_to_root h p qs"
      by (cases ps) simp_all
    have "length qs < k" using assms(2) ps by simp
    from ancestors_parents_to_root [OF rest this] show ?thesis
      using a ps by simp
  qed
  have r': "isRoot h n \<longrightarrow> ancestors k h n [] = Some []"
    using a r by auto
  have p': "\<forall>p. parent (store h n) = Some p \<longrightarrow>
             ancestors k h n [] = map_option ((#) p) (ancestors k h p [])"
    using p by blast
  have l': "lineage k h n = Some (n # ps)"
    using l a by simp
  from a l l' r' p' show ?thesis by blast
qed

theorem lineage_node_then_ancestors_witness:
  "ancestors 3 guide_tree 4 [] = Some [2, 0]
   \<and> lineage 3 guide_tree 4 = Some [4, 2, 0]
   \<and> ancestors 3 guide_tree 0 [] = Some []
   \<and> lineage 3 guide_tree 0 = Some [0]"
proof -
  have c4: "parents_to_root guide_tree 4 [2, 0]" and c0: "parents_to_root guide_tree 0 []"
    by (simp_all add: guide_tree_store)
  have l4: "length [2, 0 :: ref] < 3" and l0: "length ([] :: ref list) < 3"
    by simp_all
  note w4 = lineage_node_then_ancestors [OF c4 l4]
  note w0 = lineage_node_then_ancestors [OF c0 l0]
  from w4 [THEN conjunct1] w4 [THEN conjunct2, THEN conjunct1]
    w0 [THEN conjunct1] w0 [THEN conjunct2, THEN conjunct1]
  show ?thesis by blast
qed

text \<open>
  C6. For a node \<open>n\<close> whose chain of parents \<open>ps\<close> ends in a root, and a bound above
  the length of the chain: \<open>n.depth()\<close> returns the length of the chain, which is the
  length of \<open>n.ancestors()\<close>; it is 0 for a root and 1 more than the depth of the parent
  for any other node.
\<close>

theorem depth_counts_ancestors:
  assumes "parents_to_root h n ps" and "length ps < k"
  shows "depth k h n = Some (length ps)
       \<and> depth k h n = map_option length (ancestors k h n [])
       \<and> (isRoot h n \<longrightarrow> depth k h n = Some 0)
       \<and> (\<forall>p. parent (store h n) = Some p \<longrightarrow>
             depth k h n = map_option (\<lambda>d. 1 + d) (depth k h p))"
proof -
  have a: "ancestors k h n [] = Some ps"
    by (rule ancestors_parents_to_root [OF assms])
  have d: "depth k h n = Some (length ps)"
    using a by (simp add: depth_length_ancestors)
  have r: "isRoot h n \<Longrightarrow> ps = []"
    using assms(1) by (cases ps) (simp_all add: isRoot_def)
  have p: "depth k h n = map_option (\<lambda>d. 1 + d) (depth k h p)"
    if par: "parent (store h n) = Some p" for p
  proof -
    from assms(1) par obtain qs where ps: "ps = p # qs" and rest: "parents_to_root h p qs"
      by (cases ps) simp_all
    have "length qs < k" using assms(2) ps by simp
    from ancestors_parents_to_root [OF rest this] have "depth k h p = Some (length qs)"
      by (simp add: depth_length_ancestors)
    then show ?thesis using d ps by simp
  qed
  have e: "depth k h n = map_option length (ancestors k h n [])"
    by (rule depth_length_ancestors)
  have r': "isRoot h n \<longrightarrow> depth k h n = Some 0"
    using d r by auto
  have p': "\<forall>p. parent (store h n) = Some p \<longrightarrow>
             depth k h n = map_option (\<lambda>d. 1 + d) (depth k h p)"
    using p by blast
  from d e r' p' show ?thesis by blast
qed

theorem depth_counts_ancestors_witness:
  "depth 3 guide_tree 4 = Some 2
   \<and> depth 3 guide_tree 2 = Some 1
   \<and> depth 3 guide_tree 0 = Some 0
   \<and> map_option length (ancestors 3 guide_tree 4 []) = Some 2"
proof -
  have c4: "parents_to_root guide_tree 4 [2, 0]" and c2: "parents_to_root guide_tree 2 [0]"
    and c0: "parents_to_root guide_tree 0 []"
    by (simp_all add: guide_tree_store)
  have l4: "length [2, 0 :: ref] < 3" and l2: "length [0 :: ref] < 3" and l0: "length ([] :: ref list) < 3"
    by simp_all
  note w4 = depth_counts_ancestors [OF c4 l4]
  have d4: "depth 3 guide_tree 4 = Some 2"
    using w4 [THEN conjunct1] by simp
  have a4: "map_option length (ancestors 3 guide_tree 4 []) = Some 2"
    using d4 w4 [THEN conjunct2, THEN conjunct1] by simp
  have d2: "depth 3 guide_tree 2 = Some 1"
    using depth_counts_ancestors [OF c2 l2, THEN conjunct1] by simp
  have d0: "depth 3 guide_tree 0 = Some 0"
    using depth_counts_ancestors [OF c0 l0, THEN conjunct1] by simp
  from d4 d2 d0 a4 show ?thesis by blast
qed

subsection \<open>Iterating\<close>

lemma those_map_Some:
  "(\<And>x. x \<in> set xs \<Longrightarrow> f x = Some (g x)) \<Longrightarrow> those (map f xs) = Some (map g xs)"
  by (induction xs) simp_all

lemma levels_subtree: "t \<in> set ts \<Longrightarrow> levels t < levels (Tree r ts)"
proof -
  assume "t \<in> set ts"
  then have "levels t \<in> set (0 # map levels ts)" by simp
  then have "levels t \<le> Max (set (0 # map levels ts))"
    by (intro Max_ge) simp_all
  then show ?thesis by simp
qed

lemma iterator_preorder:
  "tree_at h t \<Longrightarrow> levels t \<le> k \<Longrightarrow> iterator k h (root_of t) = Some (preorder t)"
proof (induction t arbitrary: k)
  case (Tree r ts)
  from Tree.prems(2) obtain k' where k: "k = Suc k'"
    by (cases k) simp_all
  have cs: "children (store h r) = map root_of ts" and sub: "\<And>t. t \<in> set ts \<Longrightarrow> tree_at h t"
    using Tree.prems(1) by (simp_all add: list_all_iff)
  have "iterator k' h (root_of t) = Some (preorder t)" if "t \<in> set ts" for t
  proof -
    have "levels t \<le> k'"
      using levels_subtree [OF that, of r] Tree.prems(2) k by linarith
    then show ?thesis by (rule Tree.IH [OF that sub [OF that]])
  qed
  then have "those (map (\<lambda>t. iterator k' h (root_of t)) ts) = Some (map preorder ts)"
    by (rule those_map_Some)
  then show ?case
    by (simp add: k cs comp_def)
qed

text \<open>
  C5. For a tree \<open>t\<close> that the store holds, and a bound of at least its number of
  levels: iterating the root of \<open>t\<close> yields the pre-order of \<open>t\<close>, that is the root,
  then what iterating each child yields, in the order of the children. On the tree of
  the guide, iterating \<open>node0\<close> yields \<open>[node0, node1, node2, node3, node4]\<close>.
\<close>

theorem iterator_is_preorder:
  assumes "tree_at h t" and "levels t \<le> k"
  shows "iterator k h (root_of t) = Some (preorder t)
       \<and> (\<exists>yielded.
             list_all2 (\<lambda>c ys. iterator k h c = Some ys) (children (store h (root_of t))) yielded
           \<and> iterator k h (root_of t) = Some (root_of t # concat yielded))"
proof -
  obtain r ts where t: "t = Tree r ts" by (cases t)
  have cs: "children (store h r) = map root_of ts" and sub: "\<And>t. t \<in> set ts \<Longrightarrow> tree_at h t"
    using assms(1) t by (simp_all add: list_all_iff)
  have each: "iterator k h (root_of u) = Some (preorder u)" if "u \<in> set ts" for u
  proof -
    have "levels u \<le> k"
      using levels_subtree [OF that, of r] assms(2) unfolding t by linarith
    then show ?thesis by (rule iterator_preorder [OF sub [OF that]])
  qed
  have "list_all2 (\<lambda>c ys. iterator k h c = Some ys) (map root_of ts) (map preorder ts)"
    using each by (simp add: list_all2_conv_all_nth)
  moreover have whole: "iterator k h (root_of t) = Some (preorder t)"
    by (rule iterator_preorder [OF assms])
  ultimately show ?thesis
    using t cs by auto
qed

theorem iterator_is_preorder_witness:
  "iterator 3 guide_tree 0 = Some [0, 1, 2, 3, 4]"
proof -
  have t: "tree_at guide_tree (Tree 0 [Tree 1 [], Tree 2 [Tree 3 [], Tree 4 []]])"
    by (simp add: guide_tree_store)
  have l: "levels (Tree 0 [Tree 1 [], Tree 2 [Tree 3 [], Tree 4 []]]) \<le> 3"
    by simp
  show ?thesis
    using iterator_is_preorder [OF t l] by simp
qed

subsection \<open>Next and previous sibling\<close>

text \<open>Where \<open>indexOf\<close> finds an element: at its first position.\<close>

lemma indexOf_from_found:
  "x \<in> set xs \<Longrightarrow>
   \<exists>j < length xs. indexOf_from xs x i = i + int j \<and> xs ! j = x \<and> (\<forall>m < j. xs ! m \<noteq> x)"
proof (induction xs arbitrary: i)
  case Nil
  then show ?case by simp
next
  case (Cons y ys)
  show ?case
  proof (cases "y = x")
    case True
    then show ?thesis by (intro exI [of _ 0]) simp
  next
    case False
    with Cons.prems have "x \<in> set ys" by simp
    from Cons.IH [OF this, of "i + 1"] obtain j where
      j: "j < length ys" "indexOf_from ys x (i + 1) = i + 1 + int j" "ys ! j = x" "\<forall>m < j. ys ! m \<noteq> x"
      by blast
    show ?thesis
    proof (intro exI [of _ "Suc j"] conjI allI impI)
      fix m assume "m < Suc j"
      then show "(y # ys) ! m \<noteq> x" using False j(4) by (cases m) auto
    qed (use j False in auto)
  qed
qed

lemma indexOf_from_missing: "x \<notin> set xs \<Longrightarrow> indexOf_from xs x i = - 1"
  by (induction xs arbitrary: i) auto

text \<open>
  C1, as the claim states it, fails. On the tree of the guide \<open>node1\<close> has the parent
  \<open>node0\<close> and the index 0; \<open>node1.previous()\<close> reads the children of \<open>node0\<close> at the
  index \<open>-1\<close> and returns \<^verbatim>\<open>undefined\<close>, and \<open>node1.next(2)\<close> reads them at the index 2
  and returns \<^verbatim>\<open>undefined\<close>: neither raises an error.
\<close>

theorem previous_past_first_counterexample:
  "parent (store guide_tree 1) = Some 0
   \<and> index guide_tree 1 = Some 0
   \<and> previous guide_tree 1 1 = Inr None
   \<and> next_node guide_tree 1 2 = Inr None
   \<and> (\<forall>e. previous guide_tree 1 1 \<noteq> Inl e)"
  by (simp add: previous_def next_node_def index_def indexOf_def at_index_def to_number_def
      guide_tree_store)

text \<open>
  C1, amended. For a node \<open>n\<close> with a parent \<open>p\<close>, \<open>n.next(count)\<close> and
  \<open>n.previous(count)\<close> raise no error: they return the child of \<open>p\<close> at the index
  \<open>n.index() + count\<close> (\<open>- count\<close> for \<open>previous\<close>) when that is an index of the children
  of \<open>p\<close>, and \<^verbatim>\<open>undefined\<close> otherwise.
\<close>

theorem next_out_of_bounds_undefined:
  assumes "parent (store h n) = Some p"
  shows "index h n = Some (indexOf (children (store h p)) n)
       \<and> next_node h n count =
           Inr (let cs = children (store h p); t = indexOf cs n + count
                in if 0 \<le> t \<and> t < int (length cs) then Some (cs ! nat t) else None)
       \<and> previous h n count =
           Inr (let cs = children (store h p); t = indexOf cs n - count
                in if 0 \<le> t \<and> t < int (length cs) then Some (cs ! nat t) else None)
       \<and> (\<forall>e. next_node h n count \<noteq> Inl e \<and> previous h n count \<noteq> Inl e)"
  using assms
  by (simp add: previous_def next_node_def index_def at_index_def to_number_def Let_def)

theorem next_out_of_bounds_undefined_witness:
  "next_node guide_tree 1 1 = Inr (Some 2)
   \<and> previous guide_tree 2 1 = Inr (Some 1)
   \<and> previous guide_tree 1 1 = Inr None
   \<and> next_node guide_tree 2 1 = Inr None"
proof -
  have p1: "parent (store guide_tree 1) = Some 0" and p2: "parent (store guide_tree 2) = Some 0"
    by (simp_all add: guide_tree_store)
  show ?thesis
    using next_out_of_bounds_undefined [OF p1, of 1] next_out_of_bounds_undefined [OF p2, of 1]
    by (simp add: guide_tree_store indexOf_def Let_def)
qed

subsection \<open>Encoding\<close>

lemma encode_labelled:
  "tree_at h t \<Longrightarrow> levels t \<le> k \<Longrightarrow> encode k h (root_of t) = Some (to_object (labelled h t))"
proof (induction t arbitrary: k)
  case (Tree r ts)
  from Tree.prems(2) obtain k' where k: "k = Suc k'"
    by (cases k) simp_all
  have cs: "children (store h r) = map root_of ts" and sub: "\<And>t. t \<in> set ts \<Longrightarrow> tree_at h t"
    using Tree.prems(1) by (simp_all add: list_all_iff)
  have "encode k' h (root_of t) = Some (to_object (labelled h t))" if "t \<in> set ts" for t
  proof -
    have "levels t \<le> k'"
      using levels_subtree [OF that, of r] Tree.prems(2) k by linarith
    then show ?thesis by (rule Tree.IH [OF that sub [OF that]])
  qed
  then have "those (map (\<lambda>t. encode k' h (root_of t)) ts) = Some (map (\<lambda>t. to_object (labelled h t)) ts)"
    by (rule those_map_Some)
  then show ?case
    by (simp add: k cs comp_def encode_constructor_def)
qed

text \<open>
  C2, as the claim states it, fails: the default constructor of \<^verbatim>\<open>encode\<close> names the
  third property \<^verbatim>\<open>nodes\<close>, and the object has no property \<^verbatim>\<open>children\<close>. On the tree of
  the guide, the object of the leaf \<open>node1\<close> has the properties \<^verbatim>\<open>id\<close>, \<^verbatim>\<open>content\<close> and
  \<^verbatim>\<open>nodes\<close>, and reading its \<^verbatim>\<open>children\<close> gives \<^verbatim>\<open>undefined\<close>.
\<close>

theorem encode_default_field_counterexample:
  "encode 1 guide_tree 1 =
     Some (Object [(''id'', Inl (JNumber 1)), (''content'', Inl (JString ''one'')), (''nodes'', Inr [])])
   \<and> map_option prop_names (encode 1 guide_tree 1) = Some [''id'', ''content'', ''nodes'']
   \<and> ''children'' \<notin> set [''id'', ''content'', ''nodes'']
   \<and> map_option (\<lambda>obj. get_prop obj ''children'') (encode 1 guide_tree 1) = Some (Inl JUndefined)"
  by (simp add: guide_tree_store encode_constructor_def prop_names_def get_prop_def eval_nat_numeral)

text \<open>
  C2, amended. For a tree that the store holds, and a bound of at least its number of
  levels, \<open>encode\<close> of the root returns an object with exactly the properties \<^verbatim>\<open>id\<close>
  (the id of the node), \<^verbatim>\<open>content\<close> (its content) and \<^verbatim>\<open>nodes\<close>: the array of what
  \<open>encode\<close> returns for each child, in the order of the children, empty for a leaf.
\<close>

theorem encode_default_shape:
  assumes "tree_at h t" and "levels t \<le> k"
  shows "\<exists>encoded.
           list_all2 (\<lambda>c e. encode k h c = Some e) (children (store h (root_of t))) encoded
         \<and> encode k h (root_of t) =
             Some (Object [(''id'', Inl (id_prop (store h (root_of t)))),
                           (''content'', Inl (content (store h (root_of t)))),
                           (''nodes'', Inr encoded)])
         \<and> (children (store h (root_of t)) = [] \<longrightarrow> encoded = [])"
proof -
  obtain r ts where t: "t = Tree r ts" by (cases t)
  have cs: "children (store h r) = map root_of ts" and sub: "\<And>t. t \<in> set ts \<Longrightarrow> tree_at h t"
    using assms(1) t by (simp_all add: list_all_iff)
  have each: "encode k h (root_of u) = Some (to_object (labelled h u))" if "u \<in> set ts" for u
  proof -
    have "levels u \<le> k"
      using levels_subtree [OF that, of r] assms(2) unfolding t by linarith
    then show ?thesis by (rule encode_labelled [OF sub [OF that]])
  qed
  have "list_all2 (\<lambda>c e. encode k h c = Some e) (map root_of ts) (map (\<lambda>u. to_object (labelled h u)) ts)"
    using each by (simp add: list_all2_conv_all_nth)
  moreover have "encode k h (root_of t) = Some (to_object (labelled h t))"
    by (rule encode_labelled [OF assms])
  ultimately show ?thesis
    unfolding t by (intro exI [of _ "map (\<lambda>u. to_object (labelled h u)) ts"]) (simp add: cs comp_def)
qed

theorem encode_default_shape_witness:
  "encode 3 guide_tree 0 =
     Some (Object [(''id'', Inl (JNumber 0)), (''content'', Inl (JString ''zero'')),
       (''nodes'', Inr [
          Object [(''id'', Inl (JNumber 1)), (''content'', Inl (JString ''one'')), (''nodes'', Inr [])],
          Object [(''id'', Inl (JNumber 2)), (''content'', Inl (JString ''two'')),
            (''nodes'', Inr [
               Object [(''id'', Inl (JNumber 3)), (''content'', Inl (JString ''three'')), (''nodes'', Inr [])],
               Object [(''id'', Inl (JNumber 4)), (''content'', Inl (JString ''four'')), (''nodes'', Inr [])]])]])])"
proof -
  have t: "tree_at guide_tree (Tree 0 [Tree 1 [], Tree 2 [Tree 3 [], Tree 4 []]])"
    by (simp add: guide_tree_store)
  have l: "levels (Tree 0 [Tree 1 [], Tree 2 [Tree 3 [], Tree 4 []]]) \<le> 3"
    by simp
  from encode_default_shape [OF t l] obtain encoded where
    e: "list_all2 (\<lambda>c e. encode 3 guide_tree c = Some e) (children (store guide_tree 0)) encoded"
    and r: "encode 3 guide_tree 0 =
             Some (Object [(''id'', Inl (id_prop (store guide_tree 0))),
                           (''content'', Inl (content (store guide_tree 0))),
                           (''nodes'', Inr encoded)])"
    by auto
  have e1: "encode 3 guide_tree 1 = Some (Object [(''id'', Inl (JNumber 1)), (''content'', Inl (JString ''one'')), (''nodes'', Inr [])])"
    unfolding numeral_3_eq_3 by (simp add: guide_tree_store encode_constructor_def)
  have e2: "encode 3 guide_tree 2 = Some (Object [(''id'', Inl (JNumber 2)), (''content'', Inl (JString ''two'')),
            (''nodes'', Inr [
               Object [(''id'', Inl (JNumber 3)), (''content'', Inl (JString ''three'')), (''nodes'', Inr [])],
               Object [(''id'', Inl (JNumber 4)), (''content'', Inl (JString ''four'')), (''nodes'', Inr [])]])])"
    unfolding numeral_3_eq_3 by (simp add: guide_tree_store encode_constructor_def)
  from e have "encoded = [Object [(''id'', Inl (JNumber 1)), (''content'', Inl (JString ''one'')), (''nodes'', Inr [])],
          Object [(''id'', Inl (JNumber 2)), (''content'', Inl (JString ''two'')),
            (''nodes'', Inr [
               Object [(''id'', Inl (JNumber 3)), (''content'', Inl (JString ''three'')), (''nodes'', Inr [])],
               Object [(''id'', Inl (JNumber 4)), (''content'', Inl (JString ''four'')), (''nodes'', Inr [])]])]]"
    by (auto simp: guide_tree_store list_all2_Cons1 e1 [unfolded One_nat_def] e2)
  with r show ?thesis by (simp add: guide_tree_store)
qed

subsection \<open>Parsing what was encoded\<close>















end
